theory Spec2Isabelle
  imports Main "HOL-Library.Multiset"
begin

section \<open>The heap of heap.py\<close>

text \<open>
  \<^verbatim>\<open>class Heap(list)\<close> is a Python list with two attributes: the relation
  \<^verbatim>\<open>cmp\<close> given to the constructor and the dictionary \<^verbatim>\<open>_indexes\<close> from items
  to positions. The state of one heap object is a record of the three. Items are
  values of a linearly ordered type: the order of the type class is Python's built-in
  comparison of the items, the one \<^verbatim>\<open>heapq\<close> uses; \<^verbatim>\<open>cmp\<close> is whatever the
  caller passed. Positions are natural numbers (Python's negative indices are not
  modelled).
\<close>

datatype error = IndexError | KeyError | RuntimeError | Exception

record 'a heap =
  items :: "'a list"
  cmp :: "'a \<Rightarrow> 'a \<Rightarrow> bool"
  indexes :: "'a \<rightharpoonup> nat"

text \<open>
  \<^verbatim>\<open>
  def __setitem__(self, key, value):
      self._indexes[value] = key
      super(Heap, self).__setitem__(key, value)
  \<close>
  Every call in this file has \<open>key < len(self)\<close>: it follows a read of the same
  slot or is bounded by the loop it stands in.
\<close>

definition setitem :: "nat \<Rightarrow> 'a \<Rightarrow> 'a heap \<Rightarrow> 'a heap" where
  "setitem key v s = s\<lparr>indexes := (indexes s)(v \<mapsto> key), items := (items s)[key := v]\<rparr>"

subsection \<open>The functions of heapq that heap.py calls\<close>

text \<open>
  \<^verbatim>\<open>Heap._siftdown\<close>, \<^verbatim>\<open>Heap._siftup\<close> and \<^verbatim>\<open>Heap.heapify\<close> hand the heap object
  to the standard library's \<^verbatim>\<open>heapq._siftdown\<close>, \<^verbatim>\<open>heapq._siftup\<close> and
  \<^verbatim>\<open>heapq.heapify\<close>. Each comparison there is the built-in \<open><\<close> of the items,
  never \<^verbatim>\<open>self.cmp\<close>.

  heapq.py defines the three in Python and ends with \<^verbatim>\<open>from _heapq import *\<close>. The
  import replaces the public \<^verbatim>\<open>heapify\<close> by the compiled function; the names that
  start with an underscore are not imported, so \<^verbatim>\<open>_siftdown\<close> and \<^verbatim>\<open>_siftup\<close> stay
  the Python functions below, where each \<^verbatim>\<open>heap[pos] = x\<close> is \<^verbatim>\<open>Heap.__setitem__\<close>.
  A read \<^verbatim>\<open>heap[pos]\<close> beyond the end raises IndexError; inside the loops every
  position read or written is smaller than the length.
  \<^verbatim>\<open>
  def _siftdown(heap, startpos, pos):
      newitem = heap[pos]
      while pos > startpos:
          parentpos = (pos - 1) >> 1
          parent = heap[parentpos]
          if newitem < parent:
              heap[pos] = parent
              pos = parentpos
              continue
          break
      heap[pos] = newitem
  \<close>
\<close>

fun siftdown_loop :: "'a::linorder \<Rightarrow> nat \<Rightarrow> nat \<Rightarrow> 'a heap \<Rightarrow> 'a heap" where
  "siftdown_loop newitem startpos pos s =
     (if pos > startpos then
        (let parentpos = (pos - 1) div 2;
             parent = items s ! parentpos
         in if newitem < parent
            then siftdown_loop newitem startpos parentpos (setitem pos parent s)
            else setitem pos newitem s)
      else setitem pos newitem s)"

declare siftdown_loop.simps [simp del]

definition siftdown :: "nat \<Rightarrow> nat \<Rightarrow> 'a::linorder heap \<Rightarrow> error + 'a heap" where
  "siftdown startpos pos s =
     (if pos < length (items s)
      then Inr (siftdown_loop (items s ! pos) startpos pos s)
      else Inl IndexError)"

text \<open>
  \<^verbatim>\<open>
  def _siftup(heap, pos):
      endpos = len(heap)
      startpos = pos
      newitem = heap[pos]
      childpos = 2*pos + 1
      while childpos < endpos:
          rightpos = childpos + 1
          if rightpos < endpos and not heap[childpos] < heap[rightpos]:
              childpos = rightpos
          heap[pos] = heap[childpos]
          pos = childpos
          childpos = 2*pos + 1
      heap[pos] = newitem
      _siftdown(heap, startpos, pos)
  \<close>
  The loop returns the position it stops at together with the heap.
\<close>

function siftup_loop :: "nat \<Rightarrow> nat \<Rightarrow> 'a::linorder heap \<Rightarrow> nat \<times> 'a heap" where
  "siftup_loop endpos pos s =
     (let childpos = 2 * pos + 1
      in if childpos < endpos then
           (let rightpos = childpos + 1;
                childpos' = (if rightpos < endpos \<and> \<not> items s ! childpos < items s ! rightpos
                             then rightpos else childpos)
            in siftup_loop endpos childpos' (setitem pos (items s ! childpos') s))
         else (pos, s))"
  by pat_completeness auto
termination
  by (relation "measure (\<lambda>(endpos, pos, s). endpos - pos)") auto

declare siftup_loop.simps [simp del]

definition siftup :: "nat \<Rightarrow> 'a::linorder heap \<Rightarrow> error + 'a heap" where
  "siftup pos s =
     (if pos < length (items s) then
        (let endpos = length (items s);
             startpos = pos;
             newitem = items s ! pos
         in case siftup_loop endpos pos s of
              (pos', s') \<Rightarrow> siftdown startpos pos' (setitem pos' newitem s'))
      else Inl IndexError)"

text \<open>
  \<^verbatim>\<open>
  def heapify(x):
      n = len(x)
      for i in reversed(range(n//2)):
          _siftup(x, i)
  \<close>
  The compiled \<^verbatim>\<open>heapify\<close> that \<^verbatim>\<open>heapq.heapify\<close> names runs this loop, with the
  same sift, on the storage of the list: it moves the items without calling
  \<^verbatim>\<open>Heap.__setitem__\<close>. So the list ends as the loop leaves it, and \<^verbatim>\<open>_indexes\<close>
  stays what it was before the call.
\<close>

fun heapify_loop :: "nat list \<Rightarrow> 'a::linorder heap \<Rightarrow> error + 'a heap" where
  "heapify_loop [] s = Inr s"
| "heapify_loop (i # is) s =
     (case siftup i s of Inl e \<Rightarrow> Inl e | Inr s' \<Rightarrow> heapify_loop is s')"

definition heapq_heapify :: "'a::linorder heap \<Rightarrow> error + 'a heap" where
  "heapq_heapify s =
     (case heapify_loop (rev [0..<length (items s) div 2]) s of
        Inl e \<Rightarrow> Inl e
      | Inr s' \<Rightarrow> Inr (s'\<lparr>indexes := indexes s\<rparr>))"

subsection \<open>The methods of Heap\<close>

text \<open>
  \<^verbatim>\<open>self._indexes = {value: index for index, value in enumerate(self)}\<close>: a later
  occurrence of a value overwrites an earlier one.
\<close>

definition build_indexes :: "'a list \<Rightarrow> ('a \<rightharpoonup> nat)" where
  "build_indexes xs = fold (\<lambda>(index, v) m. m(v \<mapsto> index)) (enumerate 0 xs) Map.empty"

text \<open>
  \<^verbatim>\<open>
  def heapify(self):
      self._indexes = {value: index for index, value in enumerate(self)}
      heapq.heapify(self)
  \<close>
\<close>

definition heapify :: "'a::linorder heap \<Rightarrow> error + 'a heap" where
  "heapify s = heapq_heapify (s\<lparr>indexes := build_indexes (items s)\<rparr>)"

text \<open>
  \<^verbatim>\<open>
  def __init__(self, iterable=[], cmp=lambda x, y: x <= y):
      super(Heap, self).__init__(list(iterable))
      self.cmp = cmp
      self.heapify()
  \<close>
\<close>

definition default_cmp :: "'a::linorder \<Rightarrow> 'a \<Rightarrow> bool" where
  "default_cmp x y = (x \<le> y)"

definition Heap_init :: "'a::linorder list \<Rightarrow> ('a \<Rightarrow> 'a \<Rightarrow> bool) \<Rightarrow> error + 'a heap" where
  "Heap_init iterable c = heapify \<lparr>items = iterable, cmp = c, indexes = Map.empty\<rparr>"

text \<open>
  A method returns what it returns or raises, and the heap as it is afterwards:
  an exception does not undo what the method has already written.
  \<^verbatim>\<open>
  def push(self, item):
      if item in self._indexes:
          raise RuntimeError('same item not allowed to be inserted twice.')
      self.append(item)
      self._siftdown(0, len(self) - 1)
  \<close>
\<close>

definition push :: "'a::linorder \<Rightarrow> 'a heap \<Rightarrow> (error + unit) \<times> 'a heap" where
  "push item s =
     (if indexes s item \<noteq> None then (Inl RuntimeError, s)
      else
        (let s1 = s\<lparr>items := items s @ [item]\<rparr>
         in case siftdown 0 (length (items s1) - 1) s1 of
              Inl e \<Rightarrow> (Inl e, s1)
            | Inr s2 \<Rightarrow> (Inr (), s2)))"

text \<open>
  \<^verbatim>\<open>
  def pop(self, index=0):
      lastelt = super(Heap, self).pop()    # raises appropriate IndexError if heap is empty
      if index == len(self):
          returnitem = lastelt
      else:
          returnitem = self[index]
          self[index] = lastelt
          if not index or self.cmp(self[(index - 1) >> 2], lastelt):
              self._siftup(index)
          else:
              self._siftdown(0, index)
      return returnitem
  \<close>
  \<open>(index - 1) >> 2\<close> is \<open>(index - 1) div 4\<close>; it is read only when \<open>index\<close>
  is not 0. \<open>self[index]\<close> with \<open>index\<close> beyond the shortened list raises
  IndexError after the last element has been taken off.
\<close>

definition pop :: "nat \<Rightarrow> 'a::linorder heap \<Rightarrow> (error + 'a) \<times> 'a heap" where
  "pop index s =
     (if items s = [] then (Inl IndexError, s)
      else
        (let lastelt = last (items s);
             s1 = s\<lparr>items := butlast (items s)\<rparr>
         in if index = length (items s1) then (Inr lastelt, s1)
            else if index < length (items s1) then
              (let returnitem = items s1 ! index;
                   s2 = setitem index lastelt s1
               in case (if index = 0 \<or> cmp s2 (items s2 ! ((index - 1) div 4)) lastelt
                        then siftup index s2
                        else siftdown 0 index s2) of
                    Inl e \<Rightarrow> (Inl e, s2)
                  | Inr s3 \<Rightarrow> (Inr returnitem, s3))
            else (Inl IndexError, s1)))"

text \<open>
  \<^verbatim>\<open>
  def remove(self, item):
      return self.pop(self._indexes.pop(item))
  \<close>
  \<open>dict.pop\<close> raises KeyError for a missing key and deletes the entry otherwise.
\<close>

definition remove :: "'a::linorder \<Rightarrow> 'a heap \<Rightarrow> (error + 'a) \<times> 'a heap" where
  "remove item s =
     (case indexes s item of
        None \<Rightarrow> (Inl KeyError, s)
      | Some index \<Rightarrow> pop index (s\<lparr>indexes := (indexes s)(item := None)\<rparr>))"

text \<open>
  \<^verbatim>\<open>
  def replace(self, item):
      returnitem = self[0]    # raises appropriate IndexError if heap is empty
      self[0] = item
      self._siftup(0)
      return returnitem
  \<close>
\<close>

definition replace :: "'a::linorder \<Rightarrow> 'a heap \<Rightarrow> (error + 'a) \<times> 'a heap" where
  "replace item s =
     (if items s = [] then (Inl IndexError, s)
      else
        (let returnitem = items s ! 0;
             s1 = setitem 0 item s
         in case siftup 0 s1 of
              Inl e \<Rightarrow> (Inl e, s1)
            | Inr s2 \<Rightarrow> (Inr returnitem, s2)))"

text \<open>
  \<^verbatim>\<open>
  def pushpop(self, item):
      if self and self.cmp(self[0], item):
          item, self[0] = self[0], item
          self._siftup(0)
      return item
  \<close>
\<close>

definition pushpop :: "'a::linorder \<Rightarrow> 'a heap \<Rightarrow> (error + 'a) \<times> 'a heap" where
  "pushpop item s =
     (if items s \<noteq> [] \<and> cmp s (items s ! 0) item then
        (let top = items s ! 0;
             s1 = setitem 0 item s
         in case siftup 0 s1 of
              Inl e \<Rightarrow> (Inl e, s1)
            | Inr s2 \<Rightarrow> (Inr top, s2))
      else (Inr item, s))"

text \<open>
  \<^verbatim>\<open>
  def check_invariant(self):
      for index in range(len(self)-1, 0, -1):
          parent_index = (index-1) >> 1
          if self.cmp(self[parent_index], self[index]):
              continue
          break
      else:
          return
      raise Exception(...)
  \<close>
\<close>

definition check_invariant :: "'a heap \<Rightarrow> error + unit" where
  "check_invariant s =
     (if list_all (\<lambda>index. cmp s (items s ! ((index - 1) div 2)) (items s ! index))
           (rev [1..<length (items s)])
      then Inr () else Inl Exception)"

section \<open>The properties\<close>

text \<open>
  The index agrees with the list: every position's item is mapped to that position.
  (The index may also hold entries for items that are no longer in the list.)
\<close>

definition synced :: "'a heap \<Rightarrow> bool" where
  "synced s = list_all (\<lambda>i. indexes s (items s ! i) = Some i) [0..<length (items s)]"

text \<open>
  While a sift runs, one slot (the hole) holds a stale copy and the item \<open>x\<close> being
  placed is in no other slot; every other slot is indexed.
\<close>

definition hole_synced :: "nat \<Rightarrow> 'a \<Rightarrow> 'a heap \<Rightarrow> bool" where
  "hole_synced pos x s \<longleftrightarrow>
     pos < length (items s) \<and>
     (\<forall>i<length (items s). i \<noteq> pos \<longrightarrow> indexes s (items s ! i) = Some i \<and> items s ! i \<noteq> x)"

text \<open>
  The order heapq keeps is the built-in one. \<open>ordered_from lo xs\<close>: every position whose
  parent is at \<open>lo\<close> or beyond is not smaller than its parent; \<open>ordered_from 0\<close> is
  the heap invariant of the built-in \<open>\<le>\<close>, and \<open>heap_ordered\<close> is the same as a
  check that runs.
\<close>

definition ordered_from :: "nat \<Rightarrow> 'a::linorder list \<Rightarrow> bool" where
  "ordered_from lo xs \<longleftrightarrow>
     (\<forall>k. 0 < k \<and> k < length xs \<and> lo \<le> (k - 1) div 2 \<longrightarrow> xs ! ((k - 1) div 2) \<le> xs ! k)"

definition heap_ordered :: "'a::linorder list \<Rightarrow> bool" where
  "heap_ordered xs = list_all (\<lambda>k. xs ! ((k - 1) div 2) \<le> xs ! k) [1..<length xs]"

text \<open>\<open>below i p\<close>: position \<open>p\<close> lies in the subtree rooted at position \<open>i\<close>.\<close>

inductive below :: "nat \<Rightarrow> nat \<Rightarrow> bool" where
  self: "below i i"
| left: "below i p \<Longrightarrow> below i (2 * p + 1)"
| right: "below i p \<Longrightarrow> below i (2 * p + 2)"

text \<open>
  The state of the loop of _siftdown with start position \<open>i\<close>: the item \<open>x\<close> is on
  its way up and \<open>pos\<close> is the slot it would go to. The pairs that do not touch the
  slot are in order, the slot's children are not smaller than \<open>x\<close>, nor smaller than
  the slot's parent.
\<close>

definition bubbling :: "nat \<Rightarrow> nat \<Rightarrow> 'a::linorder \<Rightarrow> 'a list \<Rightarrow> bool" where
  "bubbling i pos x xs \<longleftrightarrow>
     below i pos \<and> pos < length xs \<and>
     (\<forall>k. 0 < k \<and> k < length xs \<and> i \<le> (k - 1) div 2 \<and> k \<noteq> pos \<and> (k - 1) div 2 \<noteq> pos
          \<longrightarrow> xs ! ((k - 1) div 2) \<le> xs ! k) \<and>
     (\<forall>k. 0 < k \<and> k < length xs \<and> (k - 1) div 2 = pos \<longrightarrow> x \<le> xs ! k) \<and>
     (pos \<noteq> i \<longrightarrow> (\<forall>k. 0 < k \<and> k < length xs \<and> (k - 1) div 2 = pos
          \<longrightarrow> xs ! ((pos - 1) div 2) \<le> xs ! k))"

text \<open>Calling pop() \<open>n\<close> times, collecting what each call returns or raises.\<close>

fun pop_all :: "nat \<Rightarrow> 'a::linorder heap \<Rightarrow> (error + 'a) list" where
  "pop_all 0 s = []"
| "pop_all (Suc n) s = (case pop 0 s of (r, s') \<Rightarrow> r # pop_all n s')"

text \<open>
  The heaps a caller gets with the default relation when every removal is from the
  top: constructed from any items, then push, pop(), replace and pushpop.
\<close>

inductive top_only :: "'a::linorder heap \<Rightarrow> bool" where
  init: "Heap_init xs default_cmp = Inr s \<Longrightarrow> top_only s"
| push: "top_only s \<Longrightarrow> top_only (snd (push x s))"
| pop: "top_only s \<Longrightarrow> top_only (snd (pop 0 s))"
| replace: "top_only s \<Longrightarrow> top_only (snd (replace x s))"
| pushpop: "top_only s \<Longrightarrow> top_only (snd (pushpop x s))"

section \<open>The index under the methods' own writes\<close>

text \<open>
  The writes of the methods and of _siftdown and _siftup go through __setitem__: from
  a heap whose index agrees with the list, each method leaves one whose index agrees
  with the list again (for replace and pushpop: when the item is at no position other
  than the top). Construction does not start from such a heap; see C2.
\<close>

lemma synced_iff: "synced s \<longleftrightarrow> (\<forall>i<length (items s). indexes s (items s ! i) = Some i)"
  by (auto simp add: synced_def list_all_iff)

lemma length_setitem [simp]: "length (items (setitem k v s)) = length (items s)"
  by (simp add: setitem_def)

lemma cmp_setitem [simp]: "cmp (setitem k v s) = cmp s"
  by (simp add: setitem_def)

lemma items_setitem: "items (setitem k v s) = (items s)[k := v]"
  by (simp add: setitem_def)

lemma indexes_setitem: "indexes (setitem k v s) = (indexes s)(v \<mapsto> k)"
  by (simp add: setitem_def)

lemma synced_distinct: "synced s \<Longrightarrow> distinct (items s)"
  unfolding synced_iff distinct_conv_nth
  by (metis option.inject)

lemma synced_hole:
  assumes "synced s" "pos < length (items s)"
  shows "hole_synced pos (items s ! pos) s"
proof -
  from assms(1) have d: "distinct (items s)" by (rule synced_distinct)
  show ?thesis
    unfolding hole_synced_def
    using assms d by (auto simp: synced_iff nth_eq_iff_index_eq)
qed

lemma hole_fill:
  assumes "hole_synced pos x s"
  shows "synced (setitem pos x s)"
  using assms
  by (auto simp: hole_synced_def synced_iff items_setitem indexes_setitem nth_list_update)

lemma hole_move:
  assumes h: "hole_synced pos x s" and c: "c < length (items s)" "c \<noteq> pos"
  shows "hole_synced c x (setitem pos (items s ! c) s)"
proof -
  have other: "items s ! i \<noteq> items s ! c"
    if "i < length (items s)" "i \<noteq> pos" "i \<noteq> c" for i
  proof
    assume "items s ! i = items s ! c"
    moreover have "indexes s (items s ! i) = Some i" "indexes s (items s ! c) = Some c"
      using h that c by (auto simp: hole_synced_def)
    ultimately show False using that by simp
  qed
  show ?thesis
    unfolding hole_synced_def
    using h c other
    by (auto simp: hole_synced_def items_setitem indexes_setitem nth_list_update)
qed

lemma siftdown_loop_synced:
  "hole_synced pos x s \<Longrightarrow> synced (siftdown_loop x startpos pos s)"
proof (induction x startpos pos s rule: siftdown_loop.induct)
  case (1 newitem startpos pos s)
  show ?case
  proof (cases "pos > startpos \<and> newitem < items s ! ((pos - 1) div 2)")
    case True
    then have lt: "(pos - 1) div 2 < length (items s)" "(pos - 1) div 2 \<noteq> pos"
      using "1.prems" by (auto simp: hole_synced_def)
    have "hole_synced ((pos - 1) div 2) newitem (setitem pos (items s ! ((pos - 1) div 2)) s)"
      using hole_move [OF "1.prems" lt] .
    with True "1.IH" show ?thesis
      by (subst siftdown_loop.simps) (simp add: Let_def)
  next
    case False
    then show ?thesis
      using hole_fill [OF "1.prems"]
      by (subst siftdown_loop.simps) (auto simp: Let_def)
  qed
qed

lemma length_siftdown_loop [simp]:
  "length (items (siftdown_loop x startpos pos s)) = length (items s)"
  by (induction x startpos pos s rule: siftdown_loop.induct)
     (subst siftdown_loop.simps, simp add: Let_def)

lemma cmp_siftdown_loop [simp]:
  "cmp (siftdown_loop x startpos pos s) = cmp s"
  by (induction x startpos pos s rule: siftdown_loop.induct)
     (subst siftdown_loop.simps, simp add: Let_def)

lemma siftup_loop_length:
  "siftup_loop endpos pos s = (p, s') \<Longrightarrow> length (items s') = length (items s) \<and> cmp s' = cmp s"
proof (induction endpos pos s arbitrary: p s' rule: siftup_loop.induct)
  case (1 endpos pos s)
  from "1.prems" show ?case
    apply (subst (asm) siftup_loop.simps)
    apply (simp add: Let_def split: if_splits)
    using "1.IH" apply (fastforce simp: Let_def)+
    done
qed

lemma siftup_loop_pos:
  "siftup_loop endpos pos s = (p, s') \<Longrightarrow> pos < endpos \<Longrightarrow> pos \<le> p \<and> p < endpos \<and> endpos \<le> 2 * p + 1"
proof (induction endpos pos s arbitrary: p s' rule: siftup_loop.induct)
  case (1 endpos pos s)
  from "1.prems" show ?case
    apply (subst (asm) siftup_loop.simps)
    apply (simp add: Let_def split: if_splits)
    using "1.IH" apply (fastforce simp: Let_def)+
    done
qed

lemma siftup_loop_hole:
  "siftup_loop endpos pos s = (p, s') \<Longrightarrow> endpos = length (items s) \<Longrightarrow>
   hole_synced pos x s \<Longrightarrow> hole_synced p x s'"
proof (induction endpos pos s arbitrary: p s' rule: siftup_loop.induct)
  case (1 endpos pos s)
  show ?case
  proof (cases "2 * pos + 1 < endpos")
    case False
    with "1.prems" show ?thesis
      by (subst (asm) siftup_loop.simps) (simp add: Let_def)
  next
    case True
    define c where "c = (if 2 * pos + 1 + 1 < endpos \<and> \<not> items s ! (2 * pos + 1) < items s ! (2 * pos + 1 + 1)
                         then 2 * pos + 1 + 1 else 2 * pos + 1)"
    have c: "c < length (items s)" "c \<noteq> pos"
      using True "1.prems"(2) by (auto simp: c_def)
    have rec: "siftup_loop endpos c (setitem pos (items s ! c) s) = (p, s')"
      using "1.prems"(1) True
      by (subst (asm) siftup_loop.simps) (auto simp: Let_def c_def split: if_splits)
    have "hole_synced c x (setitem pos (items s ! c) s)"
      using hole_move [OF "1.prems"(3) c] .
    with "1.IH" [OF refl True refl c_def rec] "1.prems"(2) show ?thesis
      by simp
  qed
qed

lemma siftdown_synced:
  "hole_synced pos (items s ! pos) s \<Longrightarrow> \<exists>s'. siftdown startpos pos s = Inr s' \<and> synced s'"
  by (simp add: siftdown_def siftdown_loop_synced hole_synced_def)

lemma hole_fill_hole:
  assumes "hole_synced pos x s"
  shows "hole_synced pos (items (setitem pos x s) ! pos) (setitem pos x s)"
  using assms synced_hole [OF hole_fill [OF assms], of pos] by (simp add: hole_synced_def)

lemma siftup_synced:
  assumes "synced s" "pos < length (items s)"
  shows "\<exists>s'. siftup pos s = Inr s' \<and> synced s'"
proof -
  obtain p s1 where loop: "siftup_loop (length (items s)) pos s = (p, s1)"
    by (cases "siftup_loop (length (items s)) pos s")
  have "hole_synced p (items s ! pos) s1"
    using siftup_loop_hole [OF loop refl synced_hole [OF assms]] .
  from siftdown_synced [OF hole_fill_hole [OF this]]
  show ?thesis
    using assms(2) loop by (simp add: siftup_def)
qed

lemma mset_hole_move:
  assumes "pos < length l" "c < length l" "c \<noteq> pos"
  shows "mset (l[pos := l ! c, c := x]) = mset (l[pos := x])"
proof -
  let ?ls = "l[pos := x]"
  have "mset (?ls[c := ?ls ! pos, pos := ?ls ! c]) = mset ?ls"
    using assms by (intro mset_swap) simp_all
  moreover have "?ls[c := ?ls ! pos, pos := ?ls ! c] = l[pos := l ! c, c := x]"
    using assms by (simp add: list_update_swap [of c pos])
  ultimately show ?thesis by simp
qed

lemma siftdown_loop_mset:
  "pos < length (items s) \<Longrightarrow>
   mset (items (siftdown_loop x startpos pos s)) = mset ((items s)[pos := x])"
proof (induction x startpos pos s rule: siftdown_loop.induct)
  case (1 newitem startpos pos s)
  show ?case
  proof (cases "pos > startpos \<and> newitem < items s ! ((pos - 1) div 2)")
    case True
    then have lt: "(pos - 1) div 2 < length (items s)" "(pos - 1) div 2 \<noteq> pos"
      using "1.prems" by auto
    have "mset (items (siftdown_loop newitem startpos ((pos - 1) div 2)
                  (setitem pos (items s ! ((pos - 1) div 2)) s)))
          = mset ((items s)[pos := items s ! ((pos - 1) div 2), (pos - 1) div 2 := newitem])"
      using "1.IH" [OF _ refl refl] True lt by (simp add: items_setitem)
    also have "\<dots> = mset ((items s)[pos := newitem])"
      using mset_hole_move [OF "1.prems" lt] .
    finally show ?thesis
      using True by (subst siftdown_loop.simps) (simp add: Let_def)
  next
    case False
    then show ?thesis
      by (subst siftdown_loop.simps) (auto simp: Let_def items_setitem)
  qed
qed

lemma siftup_loop_mset:
  "siftup_loop endpos pos s = (p, s') \<Longrightarrow> endpos = length (items s) \<Longrightarrow> pos < endpos \<Longrightarrow>
   mset ((items s')[p := x]) = mset ((items s)[pos := x])"
proof (induction endpos pos s arbitrary: p s' rule: siftup_loop.induct)
  case (1 endpos pos s)
  show ?case
  proof (cases "2 * pos + 1 < endpos")
    case False
    with "1.prems" show ?thesis
      by (subst (asm) siftup_loop.simps) (simp add: Let_def)
  next
    case True
    define c where "c = (if 2 * pos + 1 + 1 < endpos \<and> \<not> items s ! (2 * pos + 1) < items s ! (2 * pos + 1 + 1)
                         then 2 * pos + 1 + 1 else 2 * pos + 1)"
    have c: "c < length (items s)" "c \<noteq> pos" "c < endpos"
      using True "1.prems"(2) by (auto simp: c_def)
    have rec: "siftup_loop endpos c (setitem pos (items s ! c) s) = (p, s')"
      using "1.prems"(1) True
      by (subst (asm) siftup_loop.simps) (auto simp: Let_def c_def split: if_splits)
    have "mset ((items s')[p := x]) = mset ((items s)[pos := items s ! c, c := x])"
      using "1.IH" [OF refl True refl c_def rec] "1.prems"(2) c by (simp add: items_setitem)
    also have "\<dots> = mset ((items s)[pos := x])"
      using mset_hole_move [of pos "items s" c x] c "1.prems" by simp
    finally show ?thesis .
  qed
qed

lemma siftdown_frame:
  "siftdown startpos pos s = Inr s' \<Longrightarrow>
   length (items s') = length (items s) \<and> cmp s' = cmp s \<and> mset (items s') = mset (items s)"
  by (auto simp: siftdown_def siftdown_loop_mset split: if_splits)

lemma siftup_frame:
  assumes "siftup pos s = Inr s'"
  shows "length (items s') = length (items s) \<and> cmp s' = cmp s \<and> mset (items s') = mset (items s)"
proof -
  have pos: "pos < length (items s)"
    using assms by (simp add: siftup_def split: if_splits)
  obtain p s1 where loop: "siftup_loop (length (items s)) pos s = (p, s1)"
    by (cases "siftup_loop (length (items s)) pos s")
  have down: "siftdown pos p (setitem p (items s ! pos) s1) = Inr s'"
    using assms pos loop by (simp add: siftup_def)
  have "mset (items (setitem p (items s ! pos) s1)) = mset (items s)"
    using siftup_loop_mset [OF loop refl pos, of "items s ! pos"] by (simp add: items_setitem)
  then show ?thesis
    using siftdown_frame [OF down] siftup_loop_length [OF loop] by simp
qed

lemma siftup_succeeds:
  "pos < length (items s) \<Longrightarrow> \<exists>s'. siftup pos s = Inr s'"
proof -
  assume pos: "pos < length (items s)"
  obtain p s1 where loop: "siftup_loop (length (items s)) pos s = (p, s1)"
    by (cases "siftup_loop (length (items s)) pos s")
  have "p < length (items s1)"
    using siftup_loop_pos [OF loop pos] siftup_loop_length [OF loop] by simp
  then show ?thesis
    using pos loop by (simp add: siftup_def siftdown_def Let_def)
qed

lemma heapify_loop_succeeds:
  "\<forall>i\<in>set is. i < length (items s) \<Longrightarrow>
   \<exists>s'. heapify_loop is s = Inr s' \<and> length (items s') = length (items s) \<and> cmp s' = cmp s
        \<and> mset (items s') = mset (items s)"
proof (induction "is" arbitrary: s)
  case Nil
  then show ?case by simp
next
  case (Cons i "is")
  then obtain s1 where s1: "siftup i s = Inr s1"
    using siftup_succeeds [of i s] by auto
  note fr = siftup_frame [OF s1]
  with Cons.prems have "\<forall>i\<in>set is. i < length (items s1)" by simp
  from Cons.IH [OF this] show ?case
    using s1 fr by auto
qed

lemma fold_indexes_other:
  "v \<notin> set xs \<Longrightarrow> fold (\<lambda>(index, v) m. m(v \<mapsto> index)) (enumerate n xs) m v = m v"
  by (induction xs arbitrary: n m) auto

lemma fold_indexes_nth:
  "distinct xs \<Longrightarrow> i < length xs \<Longrightarrow>
   fold (\<lambda>(index, v) m. m(v \<mapsto> index)) (enumerate n xs) m (xs ! i) = Some (n + i)"
proof (induction xs arbitrary: n m i)
  case Nil
  then show ?case by simp
next
  case (Cons x xs)
  show ?case
  proof (cases i)
    case 0
    have "fold (\<lambda>(index, v) m. m(v \<mapsto> index)) (enumerate (Suc n) xs) (m(x \<mapsto> n)) x
          = (m(x \<mapsto> n)) x"
      using Cons.prems by (intro fold_indexes_other) simp
    also have "\<dots> = Some n" by simp
    finally show ?thesis using 0 by (simp del: fun_upd_apply)
  next
    case (Suc j)
    with Cons.prems Cons.IH [of j "Suc n" "m(x \<mapsto> n)"] show ?thesis by simp
  qed
qed

lemma build_indexes_nth:
  "distinct xs \<Longrightarrow> i < length xs \<Longrightarrow> build_indexes xs (xs ! i) = Some i"
  using fold_indexes_nth [of xs i 0 Map.empty] by (simp add: build_indexes_def)

lemma Heap_init_succeeds:
  "\<exists>s. Heap_init xs c = Inr s \<and> length (items s) = length xs \<and> cmp s = c \<and> mset (items s) = mset xs"
proof -
  let ?s = "\<lparr>items = xs, cmp = c, indexes = build_indexes xs\<rparr>"
  have "\<forall>i\<in>set (rev [0..<length xs div 2]). i < length (items ?s)"
    by auto
  from heapify_loop_succeeds [OF this] show ?thesis
    by (auto simp: Heap_init_def heapify_def heapq_heapify_def)
qed

text \<open>After construction the index is the enumeration of the input, not of the heap.\<close>

lemma Heap_init_indexes:
  "Heap_init xs c = Inr s \<Longrightarrow> indexes s = build_indexes xs"
  by (auto simp: Heap_init_def heapify_def heapq_heapify_def split: sum.splits)

lemma Heap_init_index_of_input:
  "Heap_init xs c = Inr s \<Longrightarrow> distinct xs \<Longrightarrow> i < length xs \<Longrightarrow> indexes s (xs ! i) = Some i"
  by (simp add: Heap_init_indexes build_indexes_nth)

lemma push_synced:
  assumes "synced s"
  shows "synced (snd (push x s))"
proof (cases "indexes s x")
  case (Some k)
  with assms show ?thesis by (simp add: push_def)
next
  case None
  let ?s1 = "s\<lparr>items := items s @ [x]\<rparr>"
  have "hole_synced (length (items s)) x ?s1"
    using assms None by (auto simp: hole_synced_def synced_iff nth_append)
  then have "hole_synced (length (items ?s1) - 1) (items ?s1 ! (length (items ?s1) - 1)) ?s1"
    by simp
  from siftdown_synced [OF this, of 0] show ?thesis
    using None by (auto simp: push_def Let_def)
qed

lemma pop_synced_aux:
  assumes d: "distinct (items s)"
    and sy: "\<forall>i<length (items s). i \<noteq> index \<longrightarrow> indexes s (items s ! i) = Some i"
  shows "synced (snd (pop index s))"
proof (cases "items s = []")
  case True
  then show ?thesis by (simp add: pop_def synced_iff)
next
  case False
  define n where "n = length (items s) - 1"
  let ?s1 = "s\<lparr>items := butlast (items s)\<rparr>"
  have len: "length (items s) = Suc n" "length (items ?s1) = n"
    using False by (simp_all add: n_def)
  have nth1: "items ?s1 ! i = items s ! i" if "i < n" for i
    using that len by (simp add: nth_butlast)
  have lastelt: "last (items s) = items s ! n"
    using False by (simp add: last_conv_nth n_def)
  consider "index = n" | "index < n" | "index > n" by linarith
  then show ?thesis
  proof cases
    case 1
    then have "synced ?s1"
      using sy len nth1 by (auto simp: synced_iff)
    with 1 False len show ?thesis by (simp add: pop_def Let_def)
  next
    case 3
    then have "synced ?s1"
      using sy len nth1 by (auto simp: synced_iff)
    with 3 False len show ?thesis by (simp add: pop_def Let_def)
  next
    case 2
    have "items s ! i \<noteq> items s ! n" if "i < n" for i
      using d that len by (simp add: nth_eq_iff_index_eq)
    then have "hole_synced index (last (items s)) ?s1"
      using 2 sy len nth1 by (auto simp: hole_synced_def lastelt)
    then have s2: "synced (setitem index (last (items s)) ?s1)" (is "synced ?s2")
      by (rule hole_fill)
    have idx: "index < length (items ?s2)"
      using 2 len by simp
    obtain u where u: "siftup index ?s2 = Inr u" "synced u"
      using siftup_synced [OF s2 idx] by blast
    obtain w where w: "siftdown 0 index ?s2 = Inr w" "synced w"
      using siftdown_synced [OF synced_hole [OF s2 idx], of 0] by blast
    show ?thesis
      using False 2 len u w by (simp add: pop_def Let_def)
  qed
qed

lemma pop_synced:
  "synced s \<Longrightarrow> synced (snd (pop index s))"
  by (rule pop_synced_aux) (auto simp: synced_distinct synced_iff)

lemma remove_synced:
  assumes "synced s"
  shows "synced (snd (remove x s))"
proof (cases "indexes s x")
  case None
  with assms show ?thesis by (simp add: remove_def)
next
  case (Some p)
  let ?s' = "s\<lparr>indexes := (indexes s)(x := None)\<rparr>"
  have "distinct (items ?s')"
    using synced_distinct [OF assms] by simp
  moreover have "\<forall>i<length (items ?s'). i \<noteq> p \<longrightarrow> indexes ?s' (items ?s' ! i) = Some i"
    using assms Some by (auto simp: synced_iff)
  ultimately have "synced (snd (pop p ?s'))"
    by (rule pop_synced_aux)
  with Some show ?thesis by (simp add: remove_def)
qed

lemma exchange_top_synced:
  assumes "synced s" "items s \<noteq> []" "x \<notin> set (tl (items s))"
  shows "\<exists>s'. siftup 0 (setitem 0 x s) = Inr s' \<and> synced s'"
proof -
  have "items s ! i \<noteq> x" if "i < length (items s)" "i \<noteq> 0" for i
  proof -
    from that obtain j where "i = Suc j" by (cases i) auto
    with that have "items s ! i = tl (items s) ! j" "j < length (tl (items s))"
      by (simp_all add: nth_tl)
    with assms(3) show ?thesis by (metis nth_mem)
  qed
  then have "hole_synced 0 x s"
    using assms(1,2) by (auto simp: hole_synced_def synced_iff)
  from siftup_synced [OF hole_fill [OF this]] assms(2) show ?thesis by simp
qed

lemma replace_synced:
  assumes "synced s" "x \<notin> set (tl (items s))"
  shows "synced (snd (replace x s))"
proof (cases "items s = []")
  case True
  with assms show ?thesis by (simp add: replace_def)
next
  case False
  from exchange_top_synced [OF assms(1) False assms(2)] False show ?thesis
    by (auto simp: replace_def Let_def)
qed

lemma pushpop_synced:
  assumes "synced s" "x \<notin> set (tl (items s))"
  shows "synced (snd (pushpop x s))"
proof (cases "items s \<noteq> [] \<and> cmp s (items s ! 0) x")
  case False
  with assms show ?thesis by (auto simp: pushpop_def)
next
  case True
  from exchange_top_synced [OF assms(1) _ assms(2)] True show ?thesis
    by (auto simp: pushpop_def Let_def)
qed

section \<open>The order heapq keeps\<close>

lemma below_le: "below i p \<Longrightarrow> i \<le> p"
  by (induction rule: below.induct) auto

lemma below_parent: "below i p \<Longrightarrow> p \<noteq> i \<Longrightarrow> below i ((p - 1) div 2)"
  by (induction rule: below.cases) auto

lemma below_zero: "below 0 p"
proof (induction p rule: less_induct)
  case (less p)
  show ?case
  proof (cases "p = 0")
    case True
    then show ?thesis by (simp add: below.self)
  next
    case False
    then have b: "below 0 ((p - 1) div 2)"
      by (intro less.IH) auto
    show ?thesis
    proof (cases "odd p")
      case True
      then have "p = 2 * ((p - 1) div 2) + 1" by (auto elim: oddE)
      with below.left [OF b] show ?thesis by simp
    next
      case False
      with \<open>p \<noteq> 0\<close> have "p = 2 * ((p - 1) div 2) + 2" by (auto elim!: evenE) 
      with below.right [OF b] show ?thesis by simp
    qed
  qed
qed

lemma ordered_from_mono: "ordered_from lo xs \<Longrightarrow> lo \<le> lo' \<Longrightarrow> ordered_from lo' xs"
  by (auto simp: ordered_from_def)

lemma root_least:
  assumes "ordered_from 0 xs"
  shows "k < length xs \<Longrightarrow> xs ! 0 \<le> xs ! k"
proof (induction k rule: less_induct)
  case (less k)
  show ?case
  proof (cases "k = 0")
    case True
    then show ?thesis by simp
  next
    case False
    then have "xs ! 0 \<le> xs ! ((k - 1) div 2)"
      using less.prems by (intro less.IH) auto
    also have "\<dots> \<le> xs ! k"
      using assms False less.prems by (simp add: ordered_from_def)
    finally show ?thesis .
  qed
qed

text \<open>One step of the loop of _siftup: the smaller child moves into the hole.\<close>

lemma hole_down:
  assumes inv: "if pos = i then ordered_from (Suc i) xs else ordered_from i xs"
    and c: "c < length xs" "(c - 1) div 2 = pos" "0 < c"
    and least: "\<forall>k. 0 < k \<and> k < length xs \<and> (k - 1) div 2 = pos \<longrightarrow> xs ! c \<le> xs ! k"
  shows "ordered_from i (xs[pos := xs ! c])"
  unfolding ordered_from_def
proof (intro allI impI, elim conjE)
  fix k
  assume k: "0 < k" "k < length (xs[pos := xs ! c])" "i \<le> (k - 1) div 2"
  let ?p = "(k - 1) div 2"
  have pk: "?p < k" "?p < length xs" using k by auto
  consider "?p = pos" | "k = pos" | "?p \<noteq> pos" "k \<noteq> pos" by blast
  then show "xs[pos := xs ! c] ! ?p \<le> xs[pos := xs ! c] ! k"
  proof cases
    case 1
    then have "k \<noteq> pos" using pk by auto
    with 1 k least pk show ?thesis by simp
  next
    case 2
    then have ne: "pos \<noteq> i" using k pk by auto
    with inv have o: "ordered_from i xs" by simp
    have "xs ! ?p \<le> xs ! pos"
      using o k 2 by (simp add: ordered_from_def)
    also have "xs ! pos \<le> xs ! c"
      using o c k 2 pk by (auto simp: ordered_from_def)
    finally show ?thesis
      using 2 pk k by simp
  next
    case 3
    have "xs ! ?p \<le> xs ! k"
    proof (cases "pos = i")
      case True
      with inv 3 k show ?thesis by (auto simp: ordered_from_def)
    next
      case False
      with inv 3 k show ?thesis by (auto simp: ordered_from_def)
    qed
    with 3 show ?thesis by simp
  qed
qed

lemma bubbling_fill:
  assumes "bubbling i pos x xs" "pos = i \<or> xs ! ((pos - 1) div 2) \<le> x"
  shows "ordered_from i (xs[pos := x])"
  unfolding ordered_from_def
proof (intro allI impI, elim conjE)
  fix k
  assume k: "0 < k" "k < length (xs[pos := x])" "i \<le> (k - 1) div 2"
  let ?p = "(k - 1) div 2"
  have pk: "?p < k" "?p < length xs" using k by auto
  consider "?p = pos" | "k = pos" | "?p \<noteq> pos" "k \<noteq> pos" by blast
  then show "xs[pos := x] ! ?p \<le> xs[pos := x] ! k"
  proof cases
    case 1
    then have "k \<noteq> pos" using pk by auto
    with 1 k pk assms(1) show ?thesis by (simp add: bubbling_def)
  next
    case 2
    then have "pos \<noteq> i" using k pk by auto
    moreover have "pos < length xs" using assms(1) by (simp add: bubbling_def)
    ultimately show ?thesis using assms(2) 2 pk by simp
  next
    case 3
    with k assms(1) show ?thesis by (simp add: bubbling_def)
  qed
qed

lemma bubbling_up:
  assumes b: "bubbling i pos x xs" and ne: "pos \<noteq> i" and lt: "x < xs ! ((pos - 1) div 2)"
  shows "bubbling i ((pos - 1) div 2) x (xs[pos := xs ! ((pos - 1) div 2)])"
proof -
  let ?q = "(pos - 1) div 2"
  let ?ys = "xs[pos := xs ! ?q]"
  from b have bel: "below i pos" and len: "pos < length xs" by (simp_all add: bubbling_def)
  have q: "below i ?q" "i \<le> ?q" "?q < pos" "0 < pos"
    using below_parent [OF bel ne] below_le [OF bel] ne below_le [OF below_parent [OF bel ne]]
    by auto
  have e1: "xs ! ((k - 1) div 2) \<le> xs ! k"
    if "0 < k" "k < length xs" "i \<le> (k - 1) div 2" "k \<noteq> pos" "(k - 1) div 2 \<noteq> pos" for k
    using b that by (simp add: bubbling_def)
  have e3: "xs ! ?q \<le> xs ! k" if "0 < k" "k < length xs" "(k - 1) div 2 = pos" for k
    using b that ne by (simp add: bubbling_def)
  have c1: "?ys ! ((k - 1) div 2) \<le> ?ys ! k"
    if k: "0 < k" "k < length xs" "i \<le> (k - 1) div 2" "k \<noteq> ?q" "(k - 1) div 2 \<noteq> ?q" for k
  proof (cases "(k - 1) div 2 = pos")
    case True
    then have "k \<noteq> pos" using k by auto
    with True e3 [of k] k len show ?thesis by simp
  next
    case False
    have "k \<noteq> pos" using k by auto
    with False e1 [of k] k show ?thesis by simp
  qed
  have c2: "x \<le> ?ys ! k" if k: "0 < k" "k < length xs" "(k - 1) div 2 = ?q" for k
  proof (cases "k = pos")
    case True
    with lt len show ?thesis by simp
  next
    case False
    have "xs ! ?q \<le> xs ! k"
      using e1 [of k] k q False by auto
    with lt False show ?thesis by simp
  qed
  have c3: "?ys ! ((?q - 1) div 2) \<le> ?ys ! k"
    if k: "0 < k" "k < length xs" "(k - 1) div 2 = ?q" and nq: "?q \<noteq> i" for k
  proof -
    have bq: "i \<le> (?q - 1) div 2" "0 < ?q"
      using below_le [OF below_parent [OF q(1) nq]] nq q(2) by auto
    have gp: "(?q - 1) div 2 \<noteq> pos" using q bq by auto
    have g: "xs ! ((?q - 1) div 2) \<le> xs ! ?q"
      using e1 [of ?q] bq q len gp by auto
    show ?thesis
    proof (cases "k = pos")
      case True
      with g gp len show ?thesis by simp
    next
      case False
      have "xs ! ?q \<le> xs ! k"
        using e1 [of k] k q False by auto
      with g gp False show ?thesis by simp
    qed
  qed
  show ?thesis
    unfolding bubbling_def
    using q len c1 c2 c3 by simp
qed

lemma siftdown_loop_ordered:
  "bubbling i pos x (items s) \<Longrightarrow> ordered_from i (items (siftdown_loop x i pos s))"
proof (induction x i pos s rule: siftdown_loop.induct)
  case (1 newitem startpos pos s)
  from "1.prems" have bel: "startpos \<le> pos"
    by (simp add: bubbling_def below_le)
  show ?case
  proof (cases "pos > startpos \<and> newitem < items s ! ((pos - 1) div 2)")
    case True
    then have "bubbling startpos ((pos - 1) div 2) newitem
                 (items (setitem pos (items s ! ((pos - 1) div 2)) s))"
      using bubbling_up [OF "1.prems"] by (simp add: items_setitem)
    with True "1.IH" show ?thesis
      by (subst siftdown_loop.simps) (simp add: Let_def)
  next
    case False
    then have "pos = startpos \<or> items s ! ((pos - 1) div 2) \<le> newitem"
      using bel by auto
    from bubbling_fill [OF "1.prems" this] False show ?thesis
      by (subst siftdown_loop.simps) (auto simp: Let_def items_setitem)
  qed
qed

lemma siftup_loop_ordered:
  "siftup_loop endpos pos s = (p, s') \<Longrightarrow> endpos = length (items s) \<Longrightarrow> pos < endpos \<Longrightarrow>
   below i pos \<Longrightarrow>
   (if pos = i then ordered_from (Suc i) (items s) else ordered_from i (items s)) \<Longrightarrow>
   below i p \<and> (if p = i then ordered_from (Suc i) (items s') else ordered_from i (items s'))"
proof (induction endpos pos s arbitrary: p s' rule: siftup_loop.induct)
  case (1 endpos pos s)
  show ?case
  proof (cases "2 * pos + 1 < endpos")
    case False
    with "1.prems" show ?thesis
      by (subst (asm) siftup_loop.simps) (auto simp: Let_def)
  next
    case True
    define c where "c = (if 2 * pos + 1 + 1 < endpos \<and> \<not> items s ! (2 * pos + 1) < items s ! (2 * pos + 1 + 1)
                         then 2 * pos + 1 + 1 else 2 * pos + 1)"
    have c: "c < length (items s)" "c \<noteq> pos" "c < endpos" "(c - 1) div 2 = pos" "0 < c"
      using True "1.prems"(2) by (auto simp: c_def)
    have rec: "siftup_loop endpos c (setitem pos (items s ! c) s) = (p, s')"
      using "1.prems"(1) True
      by (subst (asm) siftup_loop.simps) (auto simp: Let_def c_def split: if_splits)
    have least: "\<forall>k. 0 < k \<and> k < length (items s) \<and> (k - 1) div 2 = pos \<longrightarrow> items s ! c \<le> items s ! k"
    proof (intro allI impI, elim conjE)
      fix k assume k: "0 < k" "k < length (items s)" "(k - 1) div 2 = pos"
      then have "k = 2 * pos + 1 \<or> k = 2 * pos + 2" by auto
      then show "items s ! c \<le> items s ! k"
        using k "1.prems"(2) by (auto simp: c_def)
    qed
    have o: "ordered_from i (items (setitem pos (items s ! c) s))"
      using hole_down [OF "1.prems"(5) c(1,4,5) least] by (simp add: items_setitem)
    have bl: "below i (2 * pos + 1)"
      by (rule below.left [OF "1.prems"(4)])
    have br: "below i (2 * pos + 1 + 1)"
      using below.right [OF "1.prems"(4)] by simp
    have bc: "below i c"
      using bl br by (auto simp: c_def)
    have ci: "c \<noteq> i"
      using below_le [OF "1.prems"(4)] c(4,5) by auto
    show ?thesis
      using "1.IH" [OF refl True refl c_def rec _ c(3) bc] o ci "1.prems"(2) by simp
  qed
qed

lemma siftup_ordered:
  assumes o: "ordered_from (Suc i) (items s)" and r: "siftup i s = Inr s'"
  shows "ordered_from i (items s')"
proof -
  have pos: "i < length (items s)"
    using r by (simp add: siftup_def split: if_splits)
  obtain p s1 where loop: "siftup_loop (length (items s)) i s = (p, s1)"
    by (cases "siftup_loop (length (items s)) i s")
  let ?x = "items s ! i"
  let ?s2 = "setitem p ?x s1"
  have down: "siftdown i p ?s2 = Inr s'"
    using r pos loop by (simp add: siftup_def)
  have len: "length (items s1) = length (items s)"
    using siftup_loop_length [OF loop] by simp
  have p: "i \<le> p" "p < length (items s)" "length (items s) \<le> 2 * p + 1"
    using siftup_loop_pos [OF loop pos] by simp_all
  have inv: "below i p" "if p = i then ordered_from (Suc i) (items s1) else ordered_from i (items s1)"
    using siftup_loop_ordered [OF loop refl pos below.self] o by simp_all
  have leaf: "\<not> (0 < k \<and> k < length (items s1) \<and> (k - 1) div 2 = p)" for k
    using p len by auto
  have "bubbling i p ?x (items s1)"
    unfolding bubbling_def
    using inv p len leaf by (auto simp: ordered_from_def split: if_splits)
  then have "bubbling i p ?x (items ?s2)"
    by (auto simp: bubbling_def items_setitem nth_list_update)
  from siftdown_loop_ordered [OF this] down p len show ?thesis
    by (simp add: siftdown_def items_setitem)
qed

lemma heap_ordered_iff: "heap_ordered xs \<longleftrightarrow> ordered_from 0 xs"
  by (auto simp: heap_ordered_def ordered_from_def list_all_iff)

lemma check_invariant_default:
  "cmp s = default_cmp \<Longrightarrow> check_invariant s = Inr () \<longleftrightarrow> heap_ordered (items s)"
  by (auto simp: check_invariant_def heap_ordered_def default_cmp_def list_all_iff)

lemma heapify_loop_ordered:
  "ordered_from m (items s) \<Longrightarrow> heapify_loop (rev [0..<m]) s = Inr s' \<Longrightarrow>
   ordered_from 0 (items s')"
proof (induction m arbitrary: s)
  case 0
  then show ?case by simp
next
  case (Suc m)
  from Suc.prems(2) obtain s1 where s1: "siftup m s = Inr s1"
    and rest: "heapify_loop (rev [0..<m]) s1 = Inr s'"
    by (auto split: sum.splits)
  from Suc.IH [OF siftup_ordered [OF Suc.prems(1) s1] rest] show ?case .
qed

lemma Heap_init_ordered:
  assumes "Heap_init xs c = Inr s"
  shows "ordered_from 0 (items s)"
proof -
  have "ordered_from (length xs div 2) xs"
    by (auto simp: ordered_from_def)
  then show ?thesis
    using assms heapify_loop_ordered
      [of "length xs div 2" "\<lparr>items = xs, cmp = c, indexes = build_indexes xs\<rparr>"]
    by (auto simp: Heap_init_def heapify_def heapq_heapify_def split: sum.splits)
qed

lemma push_ordered:
  assumes "ordered_from 0 (items s)"
  shows "ordered_from 0 (items (snd (push x s)))"
proof (cases "indexes s x")
  case (Some k)
  with assms show ?thesis by (simp add: push_def)
next
  case None
  let ?s1 = "s\<lparr>items := items s @ [x]\<rparr>"
  let ?n = "length (items s)"
  have leaf: "\<not> (0 < k \<and> k < Suc ?n \<and> (k - 1) div 2 = ?n)" for k
    by auto
  have inner: "(items s @ [x]) ! ((k - 1) div 2) \<le> (items s @ [x]) ! k"
    if "0 < k" "k < Suc ?n" "k \<noteq> ?n" for k
    using that assms by (auto simp: ordered_from_def nth_append)
  have "bubbling 0 ?n x (items ?s1)"
    unfolding bubbling_def
  proof (intro conjI allI impI)
    show "below 0 ?n" by (rule below_zero)
    show "?n < length (items ?s1)" by simp
  next
    fix k
    assume "0 < k \<and> k < length (items ?s1) \<and> 0 \<le> (k - 1) div 2 \<and> k \<noteq> ?n \<and> (k - 1) div 2 \<noteq> ?n"
    then show "items ?s1 ! ((k - 1) div 2) \<le> items ?s1 ! k"
      using inner [of k] by simp
  next
    fix k
    assume "0 < k \<and> k < length (items ?s1) \<and> (k - 1) div 2 = ?n"
    with leaf [of k] show "x \<le> items ?s1 ! k" by simp
  next
    fix k
    assume "0 < k \<and> k < length (items ?s1) \<and> (k - 1) div 2 = ?n"
    with leaf [of k] show "items ?s1 ! ((?n - 1) div 2) \<le> items ?s1 ! k" by simp
  qed
  from siftdown_loop_ordered [OF this] None show ?thesis
    by (simp add: push_def Let_def siftdown_def)
qed

lemma exchange_top_ordered:
  assumes "ordered_from 0 (items s)" "siftup 0 (setitem 0 x s) = Inr s'"
  shows "ordered_from 0 (items s')"
proof -
  have "ordered_from (Suc 0) (items (setitem 0 x s))"
    using assms(1) by (auto simp: ordered_from_def items_setitem)
  from siftup_ordered [OF this assms(2)] show ?thesis .
qed

lemma replace_ordered:
  "ordered_from 0 (items s) \<Longrightarrow> ordered_from 0 (items (snd (replace x s)))"
  using exchange_top_ordered [of s x] siftup_succeeds [of 0 "setitem 0 x s"]
  by (auto simp: replace_def Let_def split: sum.splits)

lemma pushpop_ordered:
  "ordered_from 0 (items s) \<Longrightarrow> ordered_from 0 (items (snd (pushpop x s)))"
  using exchange_top_ordered [of s x] siftup_succeeds [of 0 "setitem 0 x s"]
  by (auto simp: pushpop_def Let_def split: sum.splits)

lemma pop_top:
  assumes ne: "items s \<noteq> []"
  shows "\<exists>s'. pop 0 s = (Inr (items s ! 0), s')
             \<and> add_mset (items s ! 0) (mset (items s')) = mset (items s)
             \<and> cmp s' = cmp s
             \<and> (ordered_from 0 (items s) \<longrightarrow> ordered_from 0 (items s'))"
proof -
  obtain a t where at: "items s = a # t"
    using ne by (cases "items s") auto
  show ?thesis
  proof (cases "t = []")
    case True
    with at show ?thesis
      by (simp add: pop_def Let_def ordered_from_def)
  next
    case False
    let ?s1 = "s\<lparr>items := butlast (items s)\<rparr>"
    let ?s2 = "setitem 0 (last (items s)) ?s1"
    have i2: "items ?s2 = last t # butlast t"
      using at False by (simp add: items_setitem)
    then obtain s3 where s3: "siftup 0 ?s2 = Inr s3"
      using siftup_succeeds [of 0 ?s2] by auto
    note fr = siftup_frame [OF s3]
    have "add_mset a (mset (last t # butlast t)) = add_mset a (mset (butlast t @ [last t]))"
      by simp
    also have "\<dots> = mset (a # t)"
      using False by simp
    finally have m: "add_mset a (mset (items s3)) = mset (items s)"
      using fr i2 at by simp
    have o: "ordered_from 0 (items s3)" if "ordered_from 0 (items s)"
    proof -
      have "ordered_from (Suc 0) (last t # butlast t)"
        unfolding ordered_from_def
      proof (intro allI impI, elim conjE)
        fix k
        assume k: "0 < k" "k < length (last t # butlast t)" "Suc 0 \<le> (k - 1) div 2"
        then have "(a # t) ! ((k - 1) div 2) \<le> (a # t) ! k"
          using that at by (auto simp: ordered_from_def)
        moreover have "(last t # butlast t) ! k = (a # t) ! k"
          using k by (cases k) (auto simp: nth_butlast)
        moreover have "(last t # butlast t) ! ((k - 1) div 2) = (a # t) ! ((k - 1) div 2)"
          using k by (cases "(k - 1) div 2") (auto simp: nth_butlast)
        ultimately show "(last t # butlast t) ! ((k - 1) div 2) \<le> (last t # butlast t) ! k"
          by simp
      qed
      with siftup_ordered [of 0 ?s2 s3] s3 i2 show ?thesis by simp
    qed
    have "pop 0 s = (Inr a, s3)"
      using at False s3 by (simp add: pop_def Let_def)
    with m o fr at show ?thesis by simp
  qed
qed

lemma pop_top_ordered:
  "ordered_from 0 (items s) \<Longrightarrow> ordered_from 0 (items (snd (pop 0 s)))"
proof (cases "items s = []")
  case True
  then show ?thesis by (simp add: pop_def ordered_from_def)
next
  case False
  assume "ordered_from 0 (items s)"
  with pop_top [OF False] show ?thesis by auto
qed

lemma cmp_push: "cmp (snd (push x s)) = cmp s"
  by (auto simp: push_def Let_def siftdown_def split: sum.splits)

lemma cmp_pop: "cmp (snd (pop index s)) = cmp s"
  by (auto simp: pop_def Let_def split: sum.splits dest!: siftup_frame siftdown_frame)

lemma cmp_replace: "cmp (snd (replace x s)) = cmp s"
  by (auto simp: replace_def Let_def split: sum.splits dest!: siftup_frame)

lemma cmp_pushpop: "cmp (snd (pushpop x s)) = cmp s"
  by (auto simp: pushpop_def Let_def split: sum.splits dest!: siftup_frame)

lemma top_only_ordered:
  "top_only s \<Longrightarrow> cmp s = default_cmp \<and> ordered_from 0 (items s)"
proof (induction rule: top_only.induct)
  case (init xs s)
  then show ?case
    using Heap_init_succeeds [of xs default_cmp] Heap_init_ordered [of xs default_cmp s] by auto
next
  case (push s x)
  then show ?case by (simp add: cmp_push push_ordered)
next
  case (pop s)
  then show ?case by (simp add: cmp_pop pop_top_ordered)
next
  case (replace s x)
  then show ?case by (simp add: cmp_replace replace_ordered)
next
  case (pushpop s x)
  then show ?case by (simp add: cmp_pushpop pushpop_ordered)
qed

lemma top_only_check_invariant: "top_only s \<Longrightarrow> check_invariant s = Inr ()"
  using top_only_ordered [of s] by (simp add: check_invariant_default heap_ordered_iff)

lemma sorted_extraction:
  "ordered_from 0 (items s) \<Longrightarrow> length (items s) = n \<Longrightarrow>
   \<exists>ys. pop_all n s = map Inr ys \<and> sorted ys \<and> mset ys = mset (items s)"
proof (induction n arbitrary: s)
  case 0
  then show ?case by simp
next
  case (Suc n)
  then have ne: "items s \<noteq> []" by auto
  let ?a = "items s ! 0"
  from pop_top [OF ne] Suc.prems(1) obtain s' where
    p: "pop 0 s = (Inr ?a, s')" and
    m: "add_mset ?a (mset (items s')) = mset (items s)" and
    o: "ordered_from 0 (items s')"
    by auto
  have "size (add_mset ?a (mset (items s'))) = size (mset (items s))"
    using m by simp
  then have len: "length (items s') = n"
    using Suc.prems(2) by simp
  from Suc.IH [OF o len] obtain ys where
    ys: "pop_all n s' = map Inr ys" "sorted ys" "mset ys = mset (items s')"
    by blast
  have least: "?a \<le> y" if "y \<in> set ys" for y
  proof -
    from that ys(3) have "y \<in># mset (items s')"
      by (metis set_mset_mset)
    then have "y \<in># mset (items s)"
      using m by (metis insert_iff set_mset_add_mset_insert)
    then have "y \<in> set (items s)" by simp
    then obtain k where "k < length (items s)" "items s ! k = y"
      by (auto simp: in_set_conv_nth)
    with root_least [OF Suc.prems(1), of k] show ?thesis by simp
  qed
  have "pop_all (Suc n) s = map Inr (?a # ys)"
    using p ys(1) by simp
  moreover have "sorted (?a # ys)"
    using ys(2) least by simp
  moreover have "mset (?a # ys) = mset (items s)"
    using ys(3) m by simp
  ultimately show ?case by blast
qed

lemma sorted_extraction_init:
  assumes "Heap_init xs c = Inr s"
  shows "\<exists>ys. pop_all (length xs) s = map Inr ys \<and> sorted ys \<and> mset ys = mset xs"
proof -
  from Heap_init_succeeds [of xs c] assms
  have "length (items s) = length xs" "mset (items s) = mset xs" by auto
  with sorted_extraction [OF Heap_init_ordered [OF assms], of "length xs"] show ?thesis
    by simp
qed

section \<open>The error paths\<close>

lemma pop_empty: "items s = [] \<Longrightarrow> pop index s = (Inl IndexError, s)"
  by (simp add: pop_def)

lemma replace_empty: "items s = [] \<Longrightarrow> replace x s = (Inl IndexError, s)"
  by (simp add: replace_def)

lemma remove_unindexed: "indexes s x = None \<Longrightarrow> remove x s = (Inl KeyError, s)"
  by (simp add: remove_def)

lemma push_indexed: "indexes s x \<noteq> None \<Longrightarrow> push x s = (Inl RuntimeError, s)"
  by (simp add: push_def)

lemma push_present:
  "synced s \<Longrightarrow> x \<in> set (items s) \<Longrightarrow> push x s = (Inl RuntimeError, s)"
  by (auto simp: push_def synced_iff in_set_conv_nth)

lemma push_unindexed: "indexes s x = None \<Longrightarrow> fst (push x s) = Inr ()"
  by (simp add: push_def Let_def siftdown_def)

section \<open>The claims\<close>

text \<open>
  C2 fails on the code. Heap.heapify builds the index from the list as given and then
  hands the list to heapq.heapify, which reorders it without Heap.__setitem__. The
  heap constructed from 2, 1 is the list 1, 2 while the index still maps 2 to position 0
  and 1 to position 1: no item present is mapped to its position, and remove(2) takes
  the item at position 0 and returns 1.
\<close>

theorem construction_leaves_index_of_input:
  "(case Heap_init [2, 1 :: int] default_cmp of
      Inl e \<Rightarrow> None
    | Inr s \<Rightarrow> Some (items s, indexes s 1, indexes s 2, synced s, fst (remove 2 s)))
   = Some ([1, 2], Some 1, Some 0, False, Inr 1)"
  by code_simp

text \<open>
  The index also goes out of step after construction: on the heap built from 1, 2,
  replace(2) returns 1 and leaves the list 2, 2 with the index mapping 2 to position 1,
  so position 0 holds an item that the index maps elsewhere.
\<close>

lemma replace_duplicate_breaks_sync:
  "(case Heap_init [1, 2 :: int] default_cmp of
      Inl e \<Rightarrow> None
    | Inr s \<Rightarrow> Some (fst (replace 2 s), items (snd (replace 2 s)),
                     indexes (snd (replace 2 s)) 2, synced (snd (replace 2 s))))
   = Some (Inr 1, [2, 2], Some 1, False)"
  by code_simp

text \<open>
  C10. replace performs no duplicate check: on every non-empty heap in which y is at a
  position other than the top, replace(y) returns the old top without raising, the list
  afterwards is the old one with the top exchanged for y, up to order, and so holds y at
  least twice (exactly twice when the items were distinct).
\<close>

theorem replace_admits_duplicate:
  assumes "items s \<noteq> []" "y \<in> set (tl (items s))"
  shows "\<exists>s'. replace y s = (Inr (items s ! 0), s')
              \<and> mset (items s') = mset ((items s)[0 := y])
              \<and> 2 \<le> count (mset (items s')) y
              \<and> (distinct (items s) \<longrightarrow> count (mset (items s')) y = 2)"
proof -
  obtain a t where at: "items s = a # t"
    using assms(1) by (cases "items s") auto
  let ?s1 = "setitem 0 y s"
  have "0 < length (items ?s1)"
    using at by simp
  then obtain s' where s': "siftup 0 ?s1 = Inr s'"
    using siftup_succeeds by blast
  have m: "mset (items s') = mset (y # t)"
    using siftup_frame [OF s'] at by (simp add: items_setitem)
  have yt: "y \<in> set t"
    using assms(2) at by simp
  then have "1 \<le> count (mset t) y"
    by (simp add: Suc_le_eq)
  moreover have "count (mset t) y = 1" if "distinct (items s)"
  proof -
    from that at have "distinct t" by simp
    then have "count (mset t) y = (if y \<in> set t then 1 else 0)"
      unfolding distinct_count_atmost_1 by blast
    with yt show ?thesis by simp
  qed
  ultimately show ?thesis
    using s' m at assms(1) by (auto simp: replace_def Let_def)
qed

text \<open>Witness for C10: replace(3) on the heap 1, 2, 3.\<close>

theorem replace_admits_duplicate_witness:
  "\<exists>s'. replace 3 \<lparr>items = [1, 2, 3 :: int], cmp = default_cmp, indexes = build_indexes [1, 2, 3]\<rparr>
           = (Inr 1, s')
        \<and> 2 \<le> count (mset (items s')) 3"
  using replace_admits_duplicate
    [of "\<lparr>items = [1, 2, 3 :: int], cmp = default_cmp, indexes = build_indexes [1, 2, 3]\<rparr>" 3]
  by auto

text \<open>
  Counterexample to C7 as stated: with the relation that compares halves, 3 is at least
  as good as the top 2 of the heap built from 2, yet pushpop(3) returns 2 and leaves 3
  in the heap, because the top is also at least as good as 3.
\<close>

theorem pushpop_tie_counterexample:
  "(case Heap_init [2 :: int] (\<lambda>x y. x div 2 \<le> y div 2) of
      Inl e \<Rightarrow> None
    | Inr s \<Rightarrow> Some (cmp s 3 (items s ! 0), fst (pushpop 3 s), items (snd (pushpop 3 s))))
   = Some (True, Inr 2, [3])"
  by code_simp

text \<open>
  C7, as amended. If the heap is empty or the top is not at least as good as y under the
  relation (\<open>cmp(top, y)\<close> is false), pushpop(y) returns y and the heap, list and
  index, is the one before the call.
\<close>

theorem pushpop_returns_item_unchanged:
  "items s = [] \<or> \<not> cmp s (items s ! 0) y \<Longrightarrow> pushpop y s = (Inr y, s)"
  by (auto simp: pushpop_def)

text \<open>Witness for C7: pushpop(1) on the heap 2, 5 with the default relation.\<close>

theorem pushpop_returns_item_unchanged_witness:
  "pushpop 1 \<lparr>items = [2, 5 :: int], cmp = default_cmp, indexes = build_indexes [2, 5]\<rparr>
   = (Inr 1, \<lparr>items = [2, 5], cmp = default_cmp, indexes = build_indexes [2, 5]\<rparr>)"
  using pushpop_returns_item_unchanged
    [of "\<lparr>items = [2, 5 :: int], cmp = default_cmp, indexes = build_indexes [2, 5]\<rparr>" 1]
  by (simp add: default_cmp_def)

text \<open>
  C1 fails on the code. The heap built from the distinct items 0, 10, 1, 11, 12, 2 with
  the default relation passes check_invariant; remove(11), whose precondition holds,
  returns 11 and leaves 0, 10, 1, 2, 12, on which check_invariant raises: 2 sits below
  10.
\<close>

theorem remove_breaks_invariant:
  "(case Heap_init [0, 10, 1, 11, 12, 2 :: int] default_cmp of
      Inl e \<Rightarrow> None
    | Inr s \<Rightarrow> Some (check_invariant s, fst (remove 11 s), items (snd (remove 11 s)),
                     check_invariant (snd (remove 11 s))))
   = Some (Inr (), Inr 11, [0, 10, 1, 2, 12], Inl Exception)"
  by code_simp

text \<open>
  C3 fails on the code. On the heap 0, 10, 1, 11, 12, 2, 3, pop(4) moves the last
  element 3 into slot 4, whose former parent is slot (4 - 1) div 2 = 1 holding 10. 10
  does not precede 3, so the claim has the slot repaired by bubbling up; the code
  reads slot (4 - 1) div 4 = 0 instead, finds 0 preceding 3 and bubbles down, which
  leaves 0, 10, 1, 11, 3, 2 and check_invariant raises. Bubbling up from slot 4
  (_siftdown(0, 4)) would have given 0, 3, 1, 11, 10, 2, which passes.
\<close>

theorem pop_repairs_in_wrong_direction:
  "(case Heap_init [0, 10, 1, 11, 12, 2, 3 :: int] default_cmp of
      Inl e \<Rightarrow> None
    | Inr s \<Rightarrow> Some (items s, cmp s (items s ! ((4 - 1) div 2)) (last (items s)),
                     fst (pop 4 s), items (snd (pop 4 s)), check_invariant (snd (pop 4 s)),
                     map_sum id (\<lambda>t. (items t, check_invariant t))
                       (siftdown 0 4 (setitem 4 (last (items s)) (s\<lparr>items := butlast (items s)\<rparr>)))))
   = Some ([0, 10, 1, 11, 12, 2, 3], False,
           Inr 12, [0, 10, 1, 11, 3, 2], Inl Exception,
           Inr ([0, 3, 1, 11, 10, 2], Inr ()))"
  by code_simp

text \<open>
  C4 fails on the code. Constructed from 1, 2 with the relation \<open>x \<ge> y\<close>, the heap is
  1, 2: heapify ordered it by the built-in \<open><\<close>, and check_invariant, which uses the
  relation, raises.
\<close>

theorem heapify_ignores_cmp:
  "(case Heap_init [1, 2 :: int] (\<lambda>x y. x \<ge> y) of
      Inl e \<Rightarrow> None
    | Inr s \<Rightarrow> Some (items s, check_invariant s))
   = Some ([1, 2], Inl Exception)"
  by code_simp

text \<open>
  C5 fails on the code. After pop() has emptied the heap built from 1, the index still
  holds 1, and push(1) raises RuntimeError although no item equal to 1 is in the heap.
\<close>

theorem push_rejects_popped_item:
  "(case Heap_init [1 :: int] default_cmp of
      Inl e \<Rightarrow> None
    | Inr s \<Rightarrow> Some (fst (pop 0 s), items (snd (pop 0 s)), fst (push 1 (snd (pop 0 s))),
                     items (snd (push 1 (snd (pop 0 s))))))
   = Some (Inr 1, [], Inl RuntimeError, [])"
  by code_simp

text \<open>
  C6 fails on the code. On the heap constructed from 3, 1, 2 with the relation
  \<open>x \<ge> y\<close>, the first pop() returns 1 while 2 and 3 remain: 1 is not at least as good
  as the remaining items under the relation.
\<close>

theorem pop_order_ignores_cmp:
  "(case Heap_init [3, 1, 2 :: int] (\<lambda>x y. x \<ge> y) of
      Inl e \<Rightarrow> None
    | Inr s \<Rightarrow> Some (fst (pop 0 s), items (snd (pop 0 s)), list_all (cmp s 1) (items (snd (pop 0 s)))))
   = Some (Inr 1, [2, 3], False)"
  by code_simp

text \<open>
  C8 fails on the code. After pop() has returned 1 from the heap built from 1, 2, the
  item 1 is not in the heap, yet remove(1) raises no KeyError: it follows the stale index
  entry of 1, returns 2 and leaves the heap empty.
\<close>

theorem remove_of_popped_item_removes_another:
  "(case Heap_init [1, 2 :: int] default_cmp of
      Inl e \<Rightarrow> None
    | Inr s \<Rightarrow> Some (fst (pop 0 s), items (snd (pop 0 s)), fst (remove 1 (snd (pop 0 s))),
                     items (snd (remove 1 (snd (pop 0 s))))))
   = Some (Inr 1, [2], Inr 2, [])"
  by code_simp

text \<open>
  C9 fails on the code. The constructor given 1, 1 raises nothing: it returns the heap
  1, 1, whose index maps 1 to position 1 only.
\<close>

theorem init_accepts_duplicates:
  "(case Heap_init [1, 1 :: int] default_cmp of
      Inl e \<Rightarrow> None
    | Inr s \<Rightarrow> Some (items s, indexes s 1))
   = Some ([1, 1], Some 1)"
  by code_simp

end
